theory Spec2Isabelle
  imports Complex_Main "HOL-Library.Log_Nat"
begin

section \<open>Binary64 numbers\<close>

text \<open>
  Every number of \<^verbatim>\<open>app.py\<close> is a Python \<^verbatim>\<open>float\<close> or an element of a
  numpy \<^verbatim>\<open>float64\<close> array: an IEEE 754 binary64 value. A finite value is modelled by
  the rational number it denotes; every arithmetic operation computes the exact rational
  result and rounds it to the nearest binary64 value, ties to even. The two zeros are
  not told apart: no operation of the program distinguishes them (its only divisions
  are guarded by \<^verbatim>\<open>count > 0\<close> and \<^verbatim>\<open>dip_max > 0\<close>).
\<close>

datatype float64 = Num rat | PosInf | NegInf | NaN

definition pow2 :: "int \<Rightarrow> rat" where
  "pow2 e = (if 0 \<le> e then 2 ^ nat e else 1 / 2 ^ nat (- e))"

text \<open>Round to the nearest integer, a tie to the even neighbour.\<close>

definition round_half_even :: "rat \<Rightarrow> int" where
  "round_half_even q =
     (let f = \<lfloor>q\<rfloor>; d = q - of_int f in
      if d < 1 / 2 then f
      else if 1 / 2 < d then f + 1
      else if even f then f else f + 1)"

text \<open>The binary exponent of a non-zero rational: the \<open>e\<close> with \<open>2^e \<le> |q| < 2^(e+1)\<close>.\<close>

definition ilog2 :: "rat \<Rightarrow> int" where
  "ilog2 q =
     (case quotient_of \<bar>q\<bar> of
        (a, b) \<Rightarrow> let e = bitlen a - bitlen b in if pow2 e \<le> \<bar>q\<bar> then e else e - 1)"

text \<open>
  Rounding to binary64: 53 significant bits, the least exponent of a unit in the last
  place is \<open>-1074\<close> (subnormal numbers), and a result of magnitude \<open>2^1024\<close> or more
  overflows to an infinity.
\<close>

definition round64 :: "rat \<Rightarrow> float64" where
  "round64 q =
     (if q = 0 then Num 0
      else
        let e = max (ilog2 q - 52) (- 1074);
            r = of_int (round_half_even (q / pow2 e)) * pow2 e
        in if pow2 1024 \<le> \<bar>r\<bar> then (if 0 < q then PosInf else NegInf) else Num r)"

text \<open>\<^verbatim>\<open>x + y\<close> on binary64.\<close>

fun fadd :: "float64 \<Rightarrow> float64 \<Rightarrow> float64" where
  "fadd (Num a) (Num b) = round64 (a + b)"
| "fadd NaN _ = NaN"
| "fadd _ NaN = NaN"
| "fadd PosInf NegInf = NaN"
| "fadd NegInf PosInf = NaN"
| "fadd PosInf _ = PosInf"
| "fadd _ PosInf = PosInf"
| "fadd NegInf _ = NegInf"
| "fadd _ NegInf = NegInf"

text \<open>
  \<^verbatim>\<open>x / y\<close> on binary64 (numpy's \<^verbatim>\<open>true_divide\<close>: a zero divisor gives an infinity
  or NaN, not an exception; the zero divisor is taken as \<open>+0.0\<close>).
\<close>

fun fdiv :: "float64 \<Rightarrow> float64 \<Rightarrow> float64" where
  "fdiv (Num a) (Num b) =
     (if b = 0 then (if a = 0 then NaN else if 0 < a then PosInf else NegInf)
      else round64 (a / b))"
| "fdiv NaN _ = NaN"
| "fdiv _ NaN = NaN"
| "fdiv (Num a) _ = Num 0"
| "fdiv PosInf (Num b) = (if 0 \<le> b then PosInf else NegInf)"
| "fdiv NegInf (Num b) = (if 0 \<le> b then NegInf else PosInf)"
| "fdiv _ _ = NaN"

text \<open>The comparisons \<^verbatim>\<open><\<close>, \<^verbatim>\<open>>=\<close> and \<^verbatim>\<open>>\<close>: false whenever an operand is NaN.\<close>

fun flt :: "float64 \<Rightarrow> float64 \<Rightarrow> bool" where
  "flt (Num a) (Num b) = (a < b)"
| "flt NaN _ = False"
| "flt _ NaN = False"
| "flt _ NegInf = False"
| "flt NegInf _ = True"
| "flt PosInf _ = False"
| "flt _ PosInf = True"

fun fge :: "float64 \<Rightarrow> float64 \<Rightarrow> bool" where
  "fge (Num a) (Num b) = (b \<le> a)"
| "fge NaN _ = False"
| "fge _ NaN = False"
| "fge _ NegInf = True"
| "fge NegInf _ = False"
| "fge PosInf _ = True"
| "fge _ PosInf = False"

definition fgt :: "float64 \<Rightarrow> float64 \<Rightarrow> bool" where
  "fgt x y = flt y x"

text \<open>
  C's \<^verbatim>\<open>fmod\<close>: the remainder of the quotient truncated towards zero. It has the sign of
  the dividend and is computed exactly.
\<close>

definition c_fmod :: "rat \<Rightarrow> rat \<Rightarrow> rat" where
  "c_fmod a b = a - b * of_int (if 0 \<le> a / b then \<lfloor>a / b\<rfloor> else \<lceil>a / b\<rceil>)"

text \<open>
  \<^verbatim>\<open>x % y\<close> on binary64 (numpy's \<^verbatim>\<open>remainder\<close>, the same as Python's): \<^verbatim>\<open>fmod\<close>,
  and when the remainder is not zero and its sign differs from the divisor's, the divisor
  is added to it. That addition is a floating-point addition: it rounds.
\<close>

fun np_remainder :: "float64 \<Rightarrow> float64 \<Rightarrow> float64" where
  "np_remainder (Num a) (Num b) =
     (if b = 0 then NaN
      else
        let m = c_fmod a b in
        if m \<noteq> 0 then (if (b < 0) \<noteq> (m < 0) then fadd (Num m) (Num b) else Num m)
        else Num 0)"
| "np_remainder (Num a) PosInf = (if 0 \<le> a then Num a else PosInf)"
| "np_remainder (Num a) NegInf = (if a \<le> 0 then Num a else NegInf)"
| "np_remainder _ _ = NaN"

text \<open>\<^verbatim>\<open>np.maximum\<close>: NaN if either operand is NaN, else the larger.\<close>

fun np_maximum :: "float64 \<Rightarrow> float64 \<Rightarrow> float64" where
  "np_maximum NaN _ = NaN"
| "np_maximum _ NaN = NaN"
| "np_maximum x y = (if fge x y then x else y)"

section \<open>The numpy operations the program uses\<close>

datatype py_error = ValueError string | IndexError

text \<open>\<^verbatim>\<open>np.arange(start, stop, step)\<close> on integers, for a positive step.\<close>

definition np_arange :: "int \<Rightarrow> int \<Rightarrow> int \<Rightarrow> int list" where
  "np_arange start stop step =
     map (\<lambda>k. start + int k * step) [0..<nat ((stop - start + step - 1) div step)]"

text \<open>
  \<^verbatim>\<open>a[idx]\<close> with a boolean mask: the entries of \<open>a\<close> where the mask is true, in order.
  numpy raises \<^verbatim>\<open>IndexError\<close> when the mask's length is not the array's.
\<close>

definition bool_index :: "'a list \<Rightarrow> bool list \<Rightarrow> py_error + 'a list" where
  "bool_index a idx =
     (if length idx \<noteq> length a then Inl IndexError
      else Inr (map fst (filter snd (zip a idx))))"

text \<open>
  The sum of a \<^verbatim>\<open>float64\<close> array (\<^verbatim>\<open>np.add.reduce\<close>) is numpy's pairwise summation:
  fewer than 8 entries are added from left to right; up to 128 entries are added into
  eight running sums, one block of eight at a time, the eight sums are added as a tree and
  the entries left over are added one by one; a longer array is split in two, at a
  multiple of eight.
\<close>

function add_blocks :: "float64 list \<Rightarrow> float64 list \<Rightarrow> float64 list \<times> float64 list" where
  "add_blocks r a =
     (if 8 \<le> length a then add_blocks (map2 fadd r (take 8 a)) (drop 8 a) else (r, a))"
  by pat_completeness auto
termination
  by lexicographic_order

function pairwise_sum :: "float64 list \<Rightarrow> float64" where
  "pairwise_sum a =
     (if length a < 8 then foldl fadd (Num 0) a
      else if length a \<le> 128 then
        (case add_blocks (take 8 a) (drop 8 a) of
           (r, rest) \<Rightarrow>
             foldl fadd
               (fadd (fadd (fadd (r ! 0) (r ! 1)) (fadd (r ! 2) (r ! 3)))
                     (fadd (fadd (r ! 4) (r ! 5)) (fadd (r ! 6) (r ! 7))))
               rest)
      else
        fadd (pairwise_sum (take (length a div 2 - length a div 2 mod 8) a))
             (pairwise_sum (drop (length a div 2 - length a div 2 mod 8) a)))"
  by pat_completeness auto
termination
  by lexicographic_order

text \<open>\<^verbatim>\<open>np.mean\<close>: the sum divided by the number of entries.\<close>

definition np_mean :: "float64 list \<Rightarrow> float64" where
  "np_mean a = fdiv (pairwise_sum a) (Num (of_int (int (length a))))"

text \<open>\<^verbatim>\<open>a.max()\<close>: \<^verbatim>\<open>np.maximum\<close> folded over the array; an empty array raises.\<close>

fun np_max :: "float64 list \<Rightarrow> py_error + float64" where
  "np_max [] = Inl (ValueError ''zero-size array to reduction operation maximum which has no identity'')"
| "np_max (x # xs) = Inr (foldl np_maximum x xs)"

section \<open>generate_rose_diagram\<close>

text \<open>
  What \<^verbatim>\<open>generate_rose_diagram\<close> computes before it draws: the bin centres, the count
  and the mean dip of every bin, and the mean dips normalised for the colour map. The
  drawing itself (matplotlib) is not modelled.
\<close>

record rose =
  bin_centers :: "float64 list"
  counts :: "nat list"
  dip_means :: "float64 list"
  dip_norm :: "float64 list"

definition bin_deg :: int where
  "bin_deg = 10"

text \<open>
  \<^verbatim>\<open>idx = (az_full >= bins[i]) & (az_full < bins[i+1])\<close>: the integer bin edges are
  converted to binary64 exactly.
\<close>

definition bin_mask :: "int list \<Rightarrow> nat \<Rightarrow> float64 list \<Rightarrow> bool list" where
  "bin_mask bins i az_full =
     map (\<lambda>a. fge a (Num (of_int (bins ! i))) \<and> flt a (Num (of_int (bins ! (i + 1))))) az_full"

text \<open>
  The loop over the bins, \<^verbatim>\<open>for i in range(len(bin_centers))\<close>, on the two arrays
  \<^verbatim>\<open>counts\<close> and \<^verbatim>\<open>dip_means\<close> it assigns to. \<^verbatim>\<open>np.sum(idx)\<close> is the number of true
  entries of the mask.
\<close>

fun bin_loop ::
  "int list \<Rightarrow> float64 list \<Rightarrow> float64 list \<Rightarrow> nat list \<Rightarrow> nat list \<times> float64 list
     \<Rightarrow> py_error + nat list \<times> float64 list" where
  "bin_loop bins az_full dips_full [] (cs, ms) = Inr (cs, ms)"
| "bin_loop bins az_full dips_full (i # is) (cs, ms) =
     (let idx = bin_mask bins i az_full;
          count = length (filter id idx)
      in if 0 < count then
           (case bool_index dips_full idx of
              Inl e \<Rightarrow> Inl e
            | Inr sel \<Rightarrow>
                bin_loop bins az_full dips_full is (cs[i := count], ms[i := np_mean sel]))
         else bin_loop bins az_full dips_full is (cs[i := count], ms[i := Num 0]))"

definition generate_rose_diagram :: "float64 list \<Rightarrow> float64 list \<Rightarrow> py_error + rose" where
  "generate_rose_diagram strikes0 dips =
     (let strikes = map (\<lambda>s. np_remainder s (Num 360)) strikes0;
          az = map (\<lambda>s. np_remainder s (Num 180)) strikes;
          dips_folded = dips;
          az_full = az @ map (\<lambda>a. fadd a (Num 180)) az;
          dips_full = dips_folded @ dips_folded;
          bins = np_arange 0 (360 + bin_deg) bin_deg;
          centers = map2 (\<lambda>lo hi. fdiv (Num (of_int (lo + hi))) (Num 2)) (butlast bins) (tl bins);
          n = length centers
      in case bin_loop bins az_full dips_full [0..<n] (replicate n 0, replicate n (Num 0)) of
           Inl e \<Rightarrow> Inl e
         | Inr (cs, ms) \<Rightarrow>
             (case np_max ms of
                Inl e \<Rightarrow> Inl e
              | Inr dip_max \<Rightarrow>
                  Inr \<lparr>bin_centers = centers, counts = cs, dip_means = ms,
                       dip_norm = (if fgt dip_max (Num 0) then map (\<lambda>m. fdiv m dip_max) ms
                                   else ms)\<rparr>))"

section \<open>parse_input\<close>

text \<open>
  Text is ASCII here. \<^verbatim>\<open>str.strip()\<close> removes leading and trailing whitespace: the
  characters 9 to 13 and 28 to 32.
\<close>

definition is_space :: "char \<Rightarrow> bool" where
  "is_space c = (let n = (of_char c :: nat) in (9 \<le> n \<and> n \<le> 13) \<or> (28 \<le> n \<and> n \<le> 32))"

definition strip :: "string \<Rightarrow> string" where
  "strip s = rev (dropWhile is_space (rev (dropWhile is_space s)))"

text \<open>\<^verbatim>\<open>s.replace(c, d)\<close> and \<^verbatim>\<open>s.replace(c, '')\<close> for a single character \<open>c\<close>.\<close>

definition replace_char :: "char \<Rightarrow> char \<Rightarrow> string \<Rightarrow> string" where
  "replace_char c d s = map (\<lambda>x. if x = c then d else x) s"

definition remove_char :: "char \<Rightarrow> string \<Rightarrow> string" where
  "remove_char c s = filter (\<lambda>x. x \<noteq> c) s"

text \<open>\<^verbatim>\<open>s.split(c)\<close>: the pieces between the separators, empty pieces included.\<close>

fun split_on :: "char \<Rightarrow> string \<Rightarrow> string list" where
  "split_on c [] = [[]]"
| "split_on c (x # xs) =
     (if x = c then [] # split_on c xs
      else (case split_on c xs of [] \<Rightarrow> [[x]] | t # ts \<Rightarrow> (x # t) # ts))"

text \<open>
  The list comprehension \<^verbatim>\<open>[float(x.strip()) for x in ... if x.strip()]\<close>. The builtin
  \<^verbatim>\<open>float\<close> is a parameter: \<open>None\<close> where it raises \<^verbatim>\<open>ValueError\<close>, whose message
  quotes the text it was given. The first token it rejects ends the comprehension.
\<close>

fun to_floats :: "(string \<Rightarrow> float64 option) \<Rightarrow> string list \<Rightarrow> py_error + float64 list" where
  "to_floats py_float [] = Inr []"
| "to_floats py_float (x # xs) =
     (if strip x \<noteq> [] then
        (case py_float (strip x) of
           None \<Rightarrow> Inl (ValueError (strip x))
         | Some v \<Rightarrow>
             (case to_floats py_float xs of Inl e \<Rightarrow> Inl e | Inr vs \<Rightarrow> Inr (v # vs)))
      else to_floats py_float xs)"

definition parse_input :: "(string \<Rightarrow> float64 option) \<Rightarrow> string \<Rightarrow> py_error + float64 list" where
  "parse_input py_float input_text =
     (if strip input_text = [] then Inr []
      else
        let cleaned = remove_char CHR '' '' (replace_char CHR 0x0A CHR '','' input_text)
        in to_floats py_float (split_on CHR '','' cleaned))"

text \<open>
  An instance of the parameter for plain decimal literals: an optional sign, digits,
  and optionally a point and more digits, with a digit on at least one side of the
  point. Python converts such a literal to the nearest binary64 value. (The builtin
  accepts more spellings: exponents, underscores, \<^verbatim>\<open>inf\<close>, \<^verbatim>\<open>nan\<close>.)
\<close>

definition is_digit :: "char \<Rightarrow> bool" where
  "is_digit c = (let n = (of_char c :: nat) in 48 \<le> n \<and> n \<le> 57)"

definition digits_value :: "string \<Rightarrow> int" where
  "digits_value ds = foldl (\<lambda>acc c. 10 * acc + (of_char c - 48)) 0 ds"

definition unsigned_plain :: "string \<Rightarrow> rat option" where
  "unsigned_plain s =
     (let ip = takeWhile (\<lambda>c. c \<noteq> CHR ''.'') s;
          rest = dropWhile (\<lambda>c. c \<noteq> CHR ''.'') s;
          fp = (if rest = [] then [] else tl rest)
      in if list_all is_digit ip \<and> list_all is_digit fp \<and> (ip \<noteq> [] \<or> fp \<noteq> [])
         then Some (of_int (digits_value ip) + of_int (digits_value fp) / 10 ^ length fp)
         else None)"

definition py_float_plain :: "string \<Rightarrow> float64 option" where
  "py_float_plain s =
     (case s of
        [] \<Rightarrow> None
      | c # cs \<Rightarrow>
          if c = CHR ''-'' then map_option (\<lambda>q. round64 (- q)) (unsigned_plain cs)
          else if c = CHR ''+'' then map_option round64 (unsigned_plain cs)
          else map_option round64 (unsigned_plain s))"

section \<open>The handler of the generate button\<close>

text \<open>
  The validation errors, in the order the handler appends them, and the text of each
  (the messages start with a cross mark, U+274C, here its three UTF-8 bytes).
\<close>

datatype verror =
    StrikeEmpty
  | StrikeMin nat
  | DipEmpty
  | DipMin nat
  | LenMismatch nat nat

definition validate :: "'a list \<Rightarrow> 'b list \<Rightarrow> verror list" where
  "validate strikes dips =
     (if length strikes = 0 then [StrikeEmpty]
      else if length strikes < 25 then [StrikeMin (length strikes)] else [])
     @ (if length dips = 0 then [DipEmpty]
        else if length dips < 25 then [DipMin (length dips)] else [])
     @ (if length strikes \<noteq> length dips then [LenMismatch (length strikes) (length dips)]
        else [])"

fun str_nat :: "nat \<Rightarrow> string" where
  "str_nat n =
     (if n < 10 then [''0123456789'' ! n]
      else str_nat (n div 10) @ [''0123456789'' ! (n mod 10)])"

definition cross_mark :: string where
  "cross_mark = [CHR 0xE2, CHR 0x9D, CHR 0x8C, CHR '' '']"

fun message :: "verror \<Rightarrow> string" where
  "message StrikeEmpty = cross_mark @ ''Data strike tidak boleh kosong''"
| "message (StrikeMin n) =
     cross_mark @ ''Data strike minimal 25, saat ini hanya '' @ str_nat n @ '' data''"
| "message DipEmpty = cross_mark @ ''Data dip tidak boleh kosong''"
| "message (DipMin n) =
     cross_mark @ ''Data dip minimal 25, saat ini hanya '' @ str_nat n @ '' data''"
| "message (LenMismatch n m) =
     cross_mark @ ''Jumlah data strike ('' @ str_nat n @ '') dan dip ('' @ str_nat m
       @ '') harus sama''"

text \<open>
  One press of the button: both fields are parsed, then validated; the errors are shown,
  or the diagram is generated. An exception nothing catches ends the run.
\<close>

datatype outcome = Uncaught py_error | Rejected "string list" | Generated rose

definition on_generate :: "(string \<Rightarrow> float64 option) \<Rightarrow> string \<Rightarrow> string \<Rightarrow> outcome" where
  "on_generate py_float strike_input dip_input =
     (case parse_input py_float strike_input of
        Inl e \<Rightarrow> Uncaught e
      | Inr strikes \<Rightarrow>
          (case parse_input py_float dip_input of
             Inl e \<Rightarrow> Uncaught e
           | Inr dips \<Rightarrow>
               (let errors = validate strikes dips
                in if errors \<noteq> [] then Rejected (map message errors)
                   else (case generate_rose_diagram strikes dips of
                           Inl e \<Rightarrow> Uncaught e
                         | Inr r \<Rightarrow> Generated r))))"

section \<open>Closed forms of the loops\<close>

text \<open>
  The values the program's loops compute, written without the loops. The lemmas
  \<open>bin_loop_closed_form\<close>, \<open>generate_closed_form\<close> and \<open>parse_input_closed_form\<close> below
  prove that the program computes them.
\<close>

definition the_bins :: "int list" where
  "the_bins = np_arange 0 (360 + bin_deg) bin_deg"

definition the_centers :: "float64 list" where
  "the_centers =
     map2 (\<lambda>lo hi. fdiv (Num (of_int (lo + hi))) (Num 2)) (butlast the_bins) (tl the_bins)"

definition fold_strike :: "float64 \<Rightarrow> float64" where
  "fold_strike s = np_remainder (np_remainder s (Num 360)) (Num 180)"

definition az_full_of :: "float64 list \<Rightarrow> float64 list" where
  "az_full_of strikes0 =
     map fold_strike strikes0 @ map (\<lambda>s. fadd (fold_strike s) (Num 180)) strikes0"

definition in_bin :: "nat \<Rightarrow> float64 \<Rightarrow> bool" where
  "in_bin i a =
     (fge a (Num (of_int (the_bins ! i))) \<and> flt a (Num (of_int (the_bins ! (i + 1)))))"

definition bin_count :: "float64 list \<Rightarrow> nat \<Rightarrow> nat" where
  "bin_count az_full i = length (filter (in_bin i) az_full)"

definition bin_dips :: "float64 list \<Rightarrow> float64 list \<Rightarrow> nat \<Rightarrow> float64 list" where
  "bin_dips az_full dips_full i = map snd (filter (\<lambda>(a, d). in_bin i a) (zip az_full dips_full))"

definition bin_mean :: "float64 list \<Rightarrow> float64 list \<Rightarrow> nat \<Rightarrow> float64" where
  "bin_mean az_full dips_full i =
     (if 0 < bin_count az_full i then np_mean (bin_dips az_full dips_full i) else Num 0)"

definition dip_max_of :: "float64 list \<Rightarrow> float64" where
  "dip_max_of ms = foldl np_maximum (hd ms) (tl ms)"

definition normalise :: "float64 list \<Rightarrow> float64 list" where
  "normalise ms =
     (if fgt (dip_max_of ms) (Num 0) then map (\<lambda>m. fdiv m (dip_max_of ms)) ms else ms)"

text \<open>
  The tokens of a field: the pieces between commas and newlines, with every space
  deleted and the other surrounding whitespace stripped, the empty ones dropped.
\<close>

definition tokens :: "string \<Rightarrow> string list" where
  "tokens input_text =
     filter (\<lambda>t. t \<noteq> [])
       (map strip (split_on CHR '','' (remove_char CHR '' '' (replace_char CHR 0x0A CHR '','' input_text))))"


text \<open>
  Three binary64 numbers next to a bin edge: the largest below 180, the largest below
  10, and a tiny negative one.
\<close>

definition below_180 :: rat where
  "below_180 = 180 - 1 / 2 ^ 45"

definition below_10 :: rat where
  "below_10 = 10 - 1 / 2 ^ 49"

definition neg_tiny :: rat where
  "neg_tiny = - (1 / 2 ^ 45)"

section \<open>Facts about rounding\<close>

declare add_blocks.simps [simp del]

declare pairwise_sum.simps [simp del]









lemma round64_one: "round64 1 = Num 1"
  by code_simp

lemma foldl_fadd_closed:
  assumes step: "\<And>x y. P x \<Longrightarrow> P y \<Longrightarrow> P (fadd x y)"
  shows "P acc \<Longrightarrow> list_all P xs \<Longrightarrow> P (foldl fadd acc xs)"
  by (induction xs arbitrary: acc) (auto intro: step)

lemma add_blocks_closed:
  assumes step: "\<And>x y. P x \<Longrightarrow> P y \<Longrightarrow> P (fadd x y)"
  shows "list_all P r \<Longrightarrow> list_all P a \<Longrightarrow> length r = 8 \<Longrightarrow> add_blocks r a = (r', rest)
    \<Longrightarrow> list_all P r' \<and> length r' = 8 \<and> list_all P rest"
proof (induction r a arbitrary: r' rest rule: add_blocks.induct)
  case (1 r a)
  show ?case
  proof (cases "8 \<le> length a")
    case True
    have eq: "add_blocks (map2 fadd r (take 8 a)) (drop 8 a) = (r', rest)"
      using "1.prems"(4) True by (subst (asm) add_blocks.simps) simp
    have pa: "list_all P (take 8 a)" "list_all P (drop 8 a)"
      using "1.prems"(2) by (auto simp: list_all_iff dest: in_set_takeD in_set_dropD)
    have pr: "list_all P (map2 fadd r (take 8 a))"
      using "1.prems"(1) pa(1) by (auto simp: list_all_length intro!: step)
    have len: "length (map2 fadd r (take 8 a)) = 8" using "1.prems"(3) True by simp
    show ?thesis using "1.IH"[OF True pr pa(2) len eq] .
  next
    case False
    then have "r' = r" "rest = a" using "1.prems"(4) by (subst (asm) add_blocks.simps, simp)+
    then show ?thesis using "1.prems" by simp
  qed
qed

lemma pairwise_sum_closed:
  assumes zero: "P (Num 0)" and step: "\<And>x y. P x \<Longrightarrow> P y \<Longrightarrow> P (fadd x y)"
  shows "list_all P a \<Longrightarrow> P (pairwise_sum a)"
proof (induction a rule: pairwise_sum.induct)
  case (1 a)
  consider (small) "length a < 8" | (block) "\<not> length a < 8" "length a \<le> 128"
    | (split) "\<not> length a < 8" "\<not> length a \<le> 128" by blast
  then show ?case
  proof cases
    case small
    then have "pairwise_sum a = foldl fadd (Num 0) a" by (subst pairwise_sum.simps) simp
    then show ?thesis using foldl_fadd_closed[of P, OF step zero "1.prems"] by simp
  next
    case block
    obtain r rest where ab: "add_blocks (take 8 a) (drop 8 a) = (r, rest)"
      by (cases "add_blocks (take 8 a) (drop 8 a)")
    have pa: "list_all P (take 8 a)" "list_all P (drop 8 a)"
      using "1.prems" by (auto simp: list_all_iff dest: in_set_takeD in_set_dropD)
    have len: "length (take 8 a) = 8" using block by simp
    have cl: "list_all P r \<and> length r = 8 \<and> list_all P rest"
      using add_blocks_closed[of P, OF step pa len ab] .
    then have nth: "\<And>k. k < 8 \<Longrightarrow> P (r ! k)" by (simp add: list_all_length)
    have tree: "P (fadd (fadd (fadd (r ! 0) (r ! 1)) (fadd (r ! 2) (r ! 3)))
                     (fadd (fadd (r ! 4) (r ! 5)) (fadd (r ! 6) (r ! 7))))"
      by (intro step nth) simp_all
    have "pairwise_sum a = foldl fadd
               (fadd (fadd (fadd (r ! 0) (r ! 1)) (fadd (r ! 2) (r ! 3)))
                     (fadd (fadd (r ! 4) (r ! 5)) (fadd (r ! 6) (r ! 7)))) rest"
      using block ab by (subst pairwise_sum.simps) simp
    then show ?thesis using foldl_fadd_closed[of P, OF step tree] cl by simp
  next
    case split
    let ?n = "length a div 2 - length a div 2 mod 8"
    have pa: "list_all P (take ?n a)" "list_all P (drop ?n a)"
      using "1.prems" by (auto simp: list_all_iff dest: in_set_takeD in_set_dropD)
    have "pairwise_sum a = fadd (pairwise_sum (take ?n a)) (pairwise_sum (drop ?n a))"
      using split by (subst pairwise_sum.simps) simp
    then show ?thesis using "1.IH"(1)[OF split pa(1)] "1.IH"(2)[OF split pa(2)] step by simp
  qed
qed

lemma fadd_zero: "x = Num 0 \<Longrightarrow> y = Num 0 \<Longrightarrow> fadd x y = Num 0"
  by (simp add: round64_def)


lemma pairwise_sum_zero: "list_all (\<lambda>x. x = Num 0) a \<Longrightarrow> pairwise_sum a = Num 0"
  using pairwise_sum_closed[of "\<lambda>x. x = Num 0" a] fadd_zero by simp


lemma np_mean_zero: "a \<noteq> [] \<Longrightarrow> list_all (\<lambda>x. x = Num 0) a \<Longrightarrow> np_mean a = Num 0"
  by (simp add: np_mean_def pairwise_sum_zero round64_def)


section \<open>The loops in closed form\<close>

lemma the_bins_eq: "the_bins = map (\<lambda>k. 10 * int k) [0..<37]"
  by (simp add: the_bins_def np_arange_def bin_deg_def mult.commute)

lemma the_bins_nth: "i < 37 \<Longrightarrow> the_bins ! i = 10 * int i"
  by (simp add: the_bins_eq del: upt_Suc)

lemma length_the_centers: "length the_centers = 36"
  by (simp add: the_centers_def the_bins_eq del: upt_Suc)

lemma bin_mask_eq: "bin_mask the_bins i az_full = map (in_bin i) az_full"
  by (simp add: bin_mask_def in_bin_def)

lemma count_mask: "length (filter id (map p xs)) = length (filter p xs)"
  by (induction xs) auto

lemma select_mask:
  "length xs = length ds \<Longrightarrow>
   map fst (filter snd (zip ds (map p xs))) = map snd (filter (\<lambda>(a, d). p a) (zip xs ds))"
  by (induction xs ds rule: list_induct2) auto

lemma bin_loop_closed_form:
  assumes "length az_full = length dips_full"
  shows "length ms = length cs \<Longrightarrow> \<forall>i\<in>set is. i < length cs \<Longrightarrow>
    bin_loop the_bins az_full dips_full is (cs, ms) =
      Inr (map (\<lambda>j. if j \<in> set is then bin_count az_full j else cs ! j) [0..<length cs],
           map (\<lambda>j. if j \<in> set is then bin_mean az_full dips_full j else ms ! j) [0..<length cs])"
proof (induction "is" arbitrary: cs ms)
  case Nil
  then show ?case by (simp add: map_nth) (metis map_nth)
next
  case (Cons i "is")
  have i: "i < length cs" using Cons.prems(2) by simp
  have bi: "bool_index dips_full (bin_mask the_bins i az_full)
            = Inr (bin_dips az_full dips_full i)"
    using assms by (simp add: bool_index_def bin_mask_eq bin_dips_def select_mask)
  have cnt: "length (filter id (bin_mask the_bins i az_full)) = bin_count az_full i"
    by (simp add: bin_mask_eq bin_count_def count_mask)
  have step: "bin_loop the_bins az_full dips_full (i # is) (cs, ms) =
        bin_loop the_bins az_full dips_full is
          (cs[i := bin_count az_full i], ms[i := bin_mean az_full dips_full i])"
    using cnt by (cases "bin_count az_full i = 0") (auto simp: Let_def bi bin_mean_def)
  have ih: "bin_loop the_bins az_full dips_full is
          (cs[i := bin_count az_full i], ms[i := bin_mean az_full dips_full i]) =
      Inr (map (\<lambda>j. if j \<in> set is then bin_count az_full j else cs[i := bin_count az_full i] ! j)
             [0..<length cs],
           map (\<lambda>j. if j \<in> set is then bin_mean az_full dips_full j
                     else ms[i := bin_mean az_full dips_full i] ! j) [0..<length cs])"
    using Cons.IH[of "ms[i := bin_mean az_full dips_full i]" "cs[i := bin_count az_full i]"]
      Cons.prems by simp
  show ?case unfolding step ih using i Cons.prems(1)
    by (auto simp: nth_list_update)
qed

lemma np_max_eq: "ms \<noteq> [] \<Longrightarrow> np_max ms = Inr (dip_max_of ms)"
  by (cases ms) (simp_all add: dip_max_of_def)

lemma az_full_eq:
  "map (\<lambda>s. np_remainder s (Num 180)) (map (\<lambda>s. np_remainder s (Num 360)) strikes0)
     @ map (\<lambda>a. fadd a (Num 180))
         (map (\<lambda>s. np_remainder s (Num 180)) (map (\<lambda>s. np_remainder s (Num 360)) strikes0))
   = az_full_of strikes0"
  by (simp add: az_full_of_def fold_strike_def comp_def)

lemma generate_closed_form:
  assumes "length strikes0 = length dips"
  shows "generate_rose_diagram strikes0 dips =
     Inr \<lparr>bin_centers = the_centers,
          counts = map (bin_count (az_full_of strikes0)) [0..<36],
          dip_means = map (bin_mean (az_full_of strikes0) (dips @ dips)) [0..<36],
          dip_norm = normalise (map (bin_mean (az_full_of strikes0) (dips @ dips)) [0..<36])\<rparr>"
proof -
  have len: "length (az_full_of strikes0) = length (dips @ dips)"
    using assms by (simp add: az_full_of_def)
  have loop: "bin_loop the_bins (az_full_of strikes0) (dips @ dips) [0..<36]
                (replicate 36 0, replicate 36 (Num 0)) =
      Inr (map (bin_count (az_full_of strikes0)) [0..<36],
           map (bin_mean (az_full_of strikes0) (dips @ dips)) [0..<36])"
    using bin_loop_closed_form[OF len, of "replicate 36 (Num 0)" "replicate 36 0" "[0..<36]"]
    by (simp del: upt_Suc cong: map_cong)
  have ne: "map (bin_mean (az_full_of strikes0) (dips @ dips)) [0..<36] \<noteq> []" by simp
  show ?thesis
    unfolding generate_rose_diagram_def Let_def az_full_eq
      the_bins_def[symmetric] the_centers_def[symmetric] length_the_centers loop
    by (simp add: np_max_eq[OF ne] normalise_def del: upt_Suc)
qed

section \<open>Bin membership\<close>

lemma in_bin_iff:
  "i < 36 \<Longrightarrow> in_bin i (Num q) \<longleftrightarrow> 10 * of_nat i \<le> q \<and> q < 10 * of_nat i + 10"
  by (simp add: in_bin_def the_bins_nth algebra_simps)

lemma in_bin_floor:
  assumes "0 \<le> q" "i < 36"
  shows "in_bin i (Num q) \<longleftrightarrow> i = nat \<lfloor>q / 10\<rfloor>"
proof -
  have f0: "0 \<le> \<lfloor>q / 10\<rfloor>" using assms(1) by simp
  have "in_bin i (Num q) \<longleftrightarrow> of_int (int i) \<le> q / 10 \<and> q / 10 < of_int (int i) + 1"
    using assms(2) by (simp add: in_bin_iff) linarith
  also have "\<dots> \<longleftrightarrow> \<lfloor>q / 10\<rfloor> = int i" by (simp only: floor_eq_iff)
  also have "\<dots> \<longleftrightarrow> i = nat \<lfloor>q / 10\<rfloor>" using f0 by linarith
  finally show ?thesis .
qed

lemma in_bin_range: "i < 36 \<Longrightarrow> in_bin i a \<Longrightarrow> fge a (Num 0) \<and> flt a (Num 360)"
  by (cases a) (auto simp: in_bin_def the_bins_nth)

lemma filter_upt_single: "k < n \<Longrightarrow> filter (\<lambda>i. i = k) [0..<n] = [k]"
  by (induction n) (auto simp: less_Suc_eq)

lemma bins_of_value:
  assumes "0 \<le> q" "q < 360"
  shows "filter (\<lambda>i. in_bin i (Num q)) [0..<36] = [nat \<lfloor>q / 10\<rfloor>]"
proof -
  have "\<lfloor>q / 10\<rfloor> < 36" using assms(2) by (simp add: floor_less_iff)
  then have k: "nat \<lfloor>q / 10\<rfloor> < 36" by linarith
  have "filter (\<lambda>i. in_bin i (Num q)) [0..<36] = filter (\<lambda>i. i = nat \<lfloor>q / 10\<rfloor>) [0..<36]"
    by (rule filter_cong) (simp_all add: in_bin_floor[OF assms(1)])
  then show ?thesis using filter_upt_single[OF k] by simp
qed

lemma validate_ok: "validate strikes dips = [] \<longleftrightarrow> 25 \<le> length strikes \<and> length dips = length strikes"
  by (auto simp: validate_def)

lemma length_bin_dips:
  "length az = length ds \<Longrightarrow> length (bin_dips az ds i) = bin_count az i"
  by (induction az ds rule: list_induct2) (auto simp: bin_dips_def bin_count_def)

lemma set_bin_dips: "set (bin_dips az ds i) \<subseteq> set ds"
  by (auto simp: bin_dips_def dest: set_zip_rightD)

lemma bin_mean_closed:
  assumes len: "length az = length ds"
    and zero: "P (Num 0)"
    and mean: "\<And>xs. xs \<noteq> [] \<Longrightarrow> list_all Q xs \<Longrightarrow> P (np_mean xs)"
    and all: "list_all Q ds"
  shows "P (bin_mean az ds i)"
proof (cases "0 < bin_count az i")
  case True
  then have ne: "bin_dips az ds i \<noteq> []" using length_bin_dips[OF len, of i] by auto
  have "list_all Q (bin_dips az ds i)" using all set_bin_dips[of az ds i] by (auto simp: list_all_iff)
  then show ?thesis using True mean[OF ne] by (simp add: bin_mean_def)
next
  case False
  then show ?thesis using zero by (simp add: bin_mean_def)
qed

lemma foldl_np_maximum_zero: "foldl np_maximum (Num 0) (replicate n (Num 0)) = Num 0"
  by (induction n) simp_all

lemma normalise_zero: "normalise (replicate (Suc n) (Num 0)) = replicate (Suc n) (Num 0)"
  by (simp add: normalise_def dip_max_of_def foldl_np_maximum_zero fgt_def)

lemma map_const: "(\<And>x. x \<in> set xs \<Longrightarrow> f x = c) \<Longrightarrow> map f xs = replicate (length xs) c"
  by (induction xs) auto

section \<open>Claims about the aggregation\<close>

text \<open>
  C8. If every dip of a validated measurement set is 0, the diagram is generated, every
  bin's mean dip is 0, the maximum \<^verbatim>\<open>dip_max\<close> is 0, and the normalised dips are the mean
  dips themselves, all 0: the branch taken for \<^verbatim>\<open>dip_max > 0\<close> being false divides
  nothing.
\<close>

theorem zero_dips:
  assumes "validate strikes dips = []" and "\<forall>d\<in>set dips. d = Num 0"
  shows "\<exists>r. generate_rose_diagram strikes dips = Inr r
           \<and> dip_means r = replicate 36 (Num 0)
           \<and> np_max (dip_means r) = Inr (Num 0)
           \<and> dip_norm r = dip_means r"
proof -
  have len: "length strikes = length dips" using assms(1) by (simp add: validate_ok)
  have len2: "length (az_full_of strikes) = length (dips @ dips)"
    using len by (simp add: az_full_of_def)
  have all: "list_all (\<lambda>d. d = Num 0) (dips @ dips)" using assms(2) by (simp add: list_all_iff)
  have "\<And>i. bin_mean (az_full_of strikes) (dips @ dips) i = Num 0"
    by (rule bin_mean_closed[OF len2 _ _ all]) (simp_all add: np_mean_zero)
  then have ms: "map (bin_mean (az_full_of strikes) (dips @ dips)) [0..<36] = replicate 36 (Num 0)"
    using map_const[of "[0..<36]" "bin_mean (az_full_of strikes) (dips @ dips)" "Num 0"] by simp
  have n0: "normalise (replicate 36 (Num 0)) = replicate 36 (Num 0)"
    using normalise_zero[of 35] by simp
  have mx: "np_max (replicate 36 (Num 0)) = Inr (Num 0)"
    using np_max_eq[of "replicate 36 (Num 0)"] foldl_np_maximum_zero[of 35]
    by (simp add: dip_max_of_def)
  show ?thesis unfolding generate_closed_form[OF len] ms n0 using mx by simp
qed

theorem zero_dips_witness:
  "validate (replicate 25 (Num 10)) (replicate 25 (Num 0)) = []
   \<and> (\<exists>r. generate_rose_diagram (replicate 25 (Num 10)) (replicate 25 (Num 0)) = Inr r
           \<and> dip_means r = replicate 36 (Num 0)
           \<and> np_max (dip_means r) = Inr (Num 0)
           \<and> dip_norm r = dip_means r)"
  using zero_dips[of "replicate 25 (Num 10)" "replicate 25 (Num 0)"]
  by (simp add: validate_def)



section \<open>Claims about validation\<close>

lemma str_nat_10: "str_nat 10 = ''10''"
  by simp

lemma str_nat_30: "str_nat 30 = ''30''"
  by simp

text \<open>
  C6. When the strike field parses to exactly 10 numbers and the dip field to exactly 30,
  the validator returns exactly two errors, and the handler shows exactly their two
  messages: the minimum-sample error of the strike field with its count 10, and the
  length mismatch with both counts.
\<close>

theorem ten_strikes_thirty_dips:
  assumes "parse_input py_float strike_input = Inr strikes" and "length strikes = 10"
    and "parse_input py_float dip_input = Inr dips" and "length dips = 30"
  shows "validate strikes dips = [StrikeMin 10, LenMismatch 10 30]
         \<and> on_generate py_float strike_input dip_input =
             Rejected [cross_mark @ ''Data strike minimal 25, saat ini hanya 10 data'',
                       cross_mark @ ''Jumlah data strike (10) dan dip (30) harus sama'']"
proof -
  have v: "validate strikes dips = [StrikeMin 10, LenMismatch 10 30]"
    using assms(2,4) by (simp add: validate_def)
  show ?thesis using assms(1,3) v
    by (simp add: on_generate_def Let_def str_nat_10 str_nat_30 del: str_nat.simps)
qed

text \<open>
  C10. For each field the emptiness check and the minimum-sample check exclude each
  other: the validator never reports both for one field, and an empty field gets only
  the "must not be empty" error. The length check is independent of both: the mismatch
  is reported exactly when the two counts differ.
\<close>

theorem empty_excludes_minimum:
  "(\<forall>n. \<not> (StrikeEmpty \<in> set (validate strikes dips) \<and> StrikeMin n \<in> set (validate strikes dips)))
   \<and> (\<forall>n. \<not> (DipEmpty \<in> set (validate strikes dips) \<and> DipMin n \<in> set (validate strikes dips)))
   \<and> (length strikes = 0 \<longrightarrow>
        StrikeEmpty \<in> set (validate strikes dips) \<and> (\<forall>n. StrikeMin n \<notin> set (validate strikes dips)))
   \<and> (length dips = 0 \<longrightarrow>
        DipEmpty \<in> set (validate strikes dips) \<and> (\<forall>n. DipMin n \<notin> set (validate strikes dips)))
   \<and> ((LenMismatch (length strikes) (length dips) \<in> set (validate strikes dips))
        = (length strikes \<noteq> length dips))"
  by (auto simp: validate_def)

theorem empty_excludes_minimum_witness:
  "validate ([] :: float64 list) [Num 1] = [StrikeEmpty, DipMin 1, LenMismatch 0 1]
   \<and> StrikeEmpty \<in> set (validate ([] :: float64 list) [Num 1])
   \<and> StrikeMin 0 \<notin> set (validate ([] :: float64 list) [Num 1])
   \<and> LenMismatch 0 1 \<in> set (validate ([] :: float64 list) [Num 1])"
  using empty_excludes_minimum[of "[] :: float64 list" "[Num 1]"]
  by (simp add: validate_def)

section \<open>Claims about parsing\<close>

lemma strip_eq_Nil: "strip s = [] \<longleftrightarrow> list_all is_space s"
proof
  assume "strip s = []"
  then have all: "\<forall>x\<in>set (dropWhile is_space s). is_space x"
    by (simp add: strip_def dropWhile_eq_Nil_conv)
  have "dropWhile is_space s = []"
  proof (rule ccontr)
    assume ne: "dropWhile is_space s \<noteq> []"
    then have "\<not> is_space (hd (dropWhile is_space s))" by (rule hd_dropWhile)
    moreover have "hd (dropWhile is_space s) \<in> set (dropWhile is_space s)" using ne by simp
    ultimately show False using all by blast
  qed
  then show "list_all is_space s" by (simp add: dropWhile_eq_Nil_conv list_all_iff)
next
  assume "list_all is_space s"
  then have "dropWhile is_space s = []" by (simp add: dropWhile_eq_Nil_conv list_all_iff)
  then show "strip s = []" by (simp add: strip_def del: dropWhile_eq_Nil_conv)
qed

lemma split_on_not_Nil: "split_on c xs \<noteq> []"
  by (induction xs) (auto split: list.splits)

lemma split_on_pieces: "t \<in> set (split_on c xs) \<Longrightarrow> set t \<subseteq> set xs - {c}"
proof (induction xs arbitrary: t)
  case Nil
  then show ?case by simp
next
  case (Cons x xs)
  show ?case
  proof (cases "x = c")
    case True
    then show ?thesis using Cons by auto
  next
    case False
    obtain u us where s: "split_on c xs = u # us"
      using split_on_not_Nil[of c xs] by (cases "split_on c xs") auto
    then have "t = x # u \<or> t \<in> set us" using Cons.prems False by simp
    then show ?thesis using Cons.IH[of u] Cons.IH[of t] s False by auto
  qed
qed

lemma to_floats_closed_form:
  "to_floats py_float xs =
     (case find (\<lambda>t. py_float t = None) (filter (\<lambda>t. t \<noteq> []) (map strip xs)) of
        None \<Rightarrow> Inr (map (the \<circ> py_float) (filter (\<lambda>t. t \<noteq> []) (map strip xs)))
      | Some t \<Rightarrow> Inl (ValueError t))"
  by (induction xs) (auto split: option.splits sum.splits)

lemma tokens_blank:
  assumes "strip s = []"
  shows "tokens s = []"
proof -
  have sp: "\<forall>x\<in>set s. is_space x" using assms by (simp add: strip_eq_Nil list_all_iff)
  let ?cleaned = "remove_char CHR '' '' (replace_char CHR 0x0A CHR '','' s)"
  have cl: "\<forall>x\<in>set ?cleaned. x = CHR '','' \<or> is_space x"
    using sp by (auto simp: remove_char_def replace_char_def)
  have "\<forall>t\<in>set (split_on CHR '','' ?cleaned). strip t = []"
  proof
    fix t assume "t \<in> set (split_on CHR '','' ?cleaned)"
    then have "set t \<subseteq> set ?cleaned - {CHR '',''}" by (rule split_on_pieces)
    then have "list_all is_space t" using cl by (auto simp: list_all_iff)
    then show "strip t = []" by (simp add: strip_eq_Nil)
  qed
  then show ?thesis by (simp add: tokens_def filter_empty_conv)
qed

lemma parse_input_closed_form:
  "parse_input py_float input_text =
     (case find (\<lambda>t. py_float t = None) (tokens input_text) of
        None \<Rightarrow> Inr (map (the \<circ> py_float) (tokens input_text))
      | Some t \<Rightarrow> Inl (ValueError t))"
proof (cases "strip input_text = []")
  case True
  then show ?thesis using tokens_blank[OF True] by (simp add: parse_input_def)
next
  case False
  then show ?thesis unfolding tokens_def
    by (simp add: parse_input_def Let_def to_floats_closed_form)
qed

lemma find_replicate: "\<not> P x \<Longrightarrow> find P (replicate n x) = None"
  by (induction n) simp_all

lemma float_1: "py_float_plain ''1'' = Some (Num 1)"
  by code_simp








lemma tokens_ten: "tokens ''1,1,1,1,1,1,1,1,1,1'' = replicate 10 ''1''"
  by code_simp

lemma tokens_thirty:
  "tokens (concat (replicate 30 ''1,'')) = replicate 30 ''1''"
  by code_simp

theorem ten_strikes_thirty_dips_witness:
  "on_generate py_float_plain ''1,1,1,1,1,1,1,1,1,1''
     (concat (replicate 30 ''1,'')) =
   Rejected [cross_mark @ ''Data strike minimal 25, saat ini hanya 10 data'',
             cross_mark @ ''Jumlah data strike (10) dan dip (30) harus sama'']"
proof -
  have p1: "parse_input py_float_plain ''1,1,1,1,1,1,1,1,1,1'' = Inr (replicate 10 (Num 1))"
    by (simp add: parse_input_closed_form tokens_ten find_replicate float_1)
  have p2: "parse_input py_float_plain
      (concat (replicate 30 ''1,'')) = Inr (replicate 30 (Num 1))"
    by (simp add: parse_input_closed_form tokens_thirty find_replicate float_1)
  show ?thesis using ten_strikes_thirty_dips[OF p1 _ p2] by simp
qed




section \<open>Rounding of integers\<close>

lemma round_half_even_of_int: "round_half_even (of_int n) = n"
  by (simp add: round_half_even_def Let_def)

lemma ilog2_of_int_le:
  assumes "n \<noteq> 0" and "\<bar>n\<bar> < 2 ^ 53"
  shows "ilog2 (of_int n) \<le> 52"
proof -
  have q: "quotient_of \<bar>rat_of_int n\<bar> = (\<bar>n\<bar>, 1)"
    by (metis of_int_abs quotient_of_rat_of_int)
  have "bitlen \<bar>n\<bar> \<le> 53" using assms(2) by (simp add: bitlen_le_iff_power)
  moreover have "bitlen 1 = 1" by (simp add: bitlen_alt_def)
  ultimately show ?thesis by (simp add: ilog2_def q Let_def)
qed

lemma round64_of_int:
  assumes "\<bar>n\<bar> < 2 ^ 53"
  shows "round64 (of_int n) = Num (of_int n)"
proof (cases "n = 0")
  case True
  then show ?thesis by (simp add: round64_def)
next
  case False
  define e where "e = max (ilog2 (rat_of_int n) - 52) (- 1074)"
  have e0: "e \<le> 0" using ilog2_of_int_le[OF False assms] by (simp add: e_def)
  have p: "pow2 e = 1 / of_int (2 ^ nat (- e))" using e0 by (simp add: pow2_def)
  have "rat_of_int n / pow2 e = of_int (n * 2 ^ nat (- e))" by (simp add: p)
  then have rh: "round_half_even (rat_of_int n / pow2 e) = n * 2 ^ nat (- e)"
    by (simp only: round_half_even_of_int)
  have r: "of_int (round_half_even (rat_of_int n / pow2 e)) * pow2 e = rat_of_int n"
    by (simp only: rh) (simp add: p)
  have "\<bar>rat_of_int n\<bar> < 2 ^ 53" using assms by (metis of_int_abs of_int_less_numeral_power_cancel_iff)
  also have "(2::rat) ^ 53 \<le> pow2 1024" by (simp add: pow2_def)
  finally have "\<not> pow2 1024 \<le> \<bar>rat_of_int n\<bar>" by simp
  then show ?thesis using False by (simp add: round64_def Let_def e_def[symmetric] r)
qed

lemma round64_numeral [simp]:
  "numeral k < (2::int) ^ 53 \<Longrightarrow> round64 (numeral k) = Num (numeral k)"
  using round64_of_int[of "numeral k"] by simp

lemma round64_neg_numeral [simp]:
  "numeral k < (2::int) ^ 53 \<Longrightarrow> round64 (- numeral k) = Num (- numeral k)"
  using round64_of_int[of "- numeral k"] by simp

lemma round64_zero [simp]: "round64 0 = Num 0"
  by (simp add: round64_def)

declare round64_one [simp]

section \<open>Evaluating the aggregation\<close>

lemma sum_25: "pairwise_sum (replicate 25 (Num 50)) = Num 1250"
  by (simp add: pairwise_sum.simps add_blocks.simps numeral_eq_Suc)

lemma mean_25: "np_mean (replicate 25 (Num 50)) = Num 50"
  by (simp add: np_mean_def sum_25)



lemma bin_count_Nil: "bin_count [] i = 0"
  by (simp add: bin_count_def)

lemma bin_count_Cons: "bin_count (a # az) i = (if in_bin i a then 1 else 0) + bin_count az i"
  by (simp add: bin_count_def)

lemma bin_count_append: "bin_count (xs @ ys) i = bin_count xs i + bin_count ys i"
  by (simp add: bin_count_def)

lemma bin_count_replicate: "bin_count (replicate n a) i = (if in_bin i a then n else 0)"
  by (simp add: bin_count_def)

lemma bin_dips_replicate:
  "bin_dips (replicate n a @ az) ds i =
     (if in_bin i a then take n ds else []) @ bin_dips az (drop n ds) i"
proof (induction n arbitrary: ds)
  case 0
  then show ?case by simp
next
  case (Suc n)
  then show ?case by (cases ds) (simp_all add: bin_dips_def)
qed

lemma bin_dips_Nil: "bin_dips [] ds i = []"
  by (simp add: bin_dips_def)

lemma in_bin_10: "i < 36 \<Longrightarrow> in_bin i (Num 10) \<longleftrightarrow> i = 1"
  by (simp add: in_bin_floor)

lemma in_bin_190: "i < 36 \<Longrightarrow> in_bin i (Num 190) \<longleftrightarrow> i = 19"
  by (simp add: in_bin_floor)

lemma in_bin_0: "i < 36 \<Longrightarrow> in_bin i (Num 0) \<longleftrightarrow> i = 0"
  by (simp add: in_bin_floor)

lemma in_bin_180: "i < 36 \<Longrightarrow> in_bin i (Num 180) \<longleftrightarrow> i = 18"
  by (simp add: in_bin_floor)

lemma in_bin_360: 
  assumes "i < 36" shows "\<not> in_bin i (Num 360)"
proof -
  have "i \<le> 35" using assms by simp
  then have "(of_nat i :: rat) \<le> of_nat 35" by (simp only: of_nat_le_iff)
  then show ?thesis using assms by (simp add: in_bin_iff)
qed

lemma in_bin_top:
  assumes "i < 36"
  shows "in_bin i (Num below_180) \<longleftrightarrow> i = 17"
proof -
  have f: "\<lfloor>below_180 / 10\<rfloor> = 17"
    by (rule floor_unique) (simp_all add: below_180_def)
  have "0 \<le> below_180" by (simp add: below_180_def)
  from in_bin_floor[OF this assms] show ?thesis unfolding f by simp
qed

lemma in_bin_edge:
  assumes "i < 36"
  shows "in_bin i (Num below_10) \<longleftrightarrow> i = 0"
proof -
  have f: "\<lfloor>below_10 / 10\<rfloor> = 0"
    by (rule floor_unique) (simp_all add: below_10_def)
  have "0 \<le> below_10" by (simp add: below_10_def)
  from in_bin_floor[OF this assms] show ?thesis unfolding f by simp
qed

lemma fold_10: "fold_strike (Num 10) = Num 10"
  by code_simp

lemma fold_top: "fold_strike (Num below_180) = Num below_180"
  by code_simp

lemma add_top: "fadd (Num below_180) (Num 180) = Num 360"
  by code_simp

lemma fold_neg: "fold_strike (Num neg_tiny) = Num 0"
  by code_simp

lemma fold_edge: "fold_strike (Num below_10) = Num below_10"
  by code_simp

lemma add_edge: "fadd (Num below_10) (Num 180) = Num 190"
  by code_simp

lemma sum_list_indicator:
  "sum_list (map (\<lambda>i. if i = k then c else 0) [0..<n]) = (if k < n then c else (0::nat))"
  by (induction n) auto

lemma foldl_np_maximum_Num:
  "foldl np_maximum (Num x) (map Num ys) = Num (foldl max x ys)"
  by (induction ys arbitrary: x) (simp_all add: max_def)

lemma dip_max_of_Num: "qs \<noteq> [] \<Longrightarrow> dip_max_of (map Num qs) = Num (Max (set qs))"
proof (cases qs)
  case Nil
  assume "qs \<noteq> []"
  with Nil show ?thesis by simp
next
  case (Cons x xs)
  have "Max (set (x # xs)) = fold max xs x" by (rule Max.set_eq_fold)
  also have "\<dots> = foldl max x xs" by (simp add: foldl_conv_fold max.commute)
  finally show ?thesis using Cons by (simp add: dip_max_of_def foldl_np_maximum_Num map_tl)
qed

lemma bin_dips_replicate_only:
  "bin_dips (replicate n a) ds i = (if in_bin i a then take n ds else [])"
  using bin_dips_replicate[of n a "[]" ds i] by (simp add: bin_dips_Nil)

lemma the_centers_eq: "the_centers = map (\<lambda>k. Num (of_int (10 * int k + 5))) [0..<36]"
proof (rule nth_equalityI)
  show "length the_centers = length (map (\<lambda>k. Num (of_int (10 * int k + 5))) [0..<36])"
    by (simp add: length_the_centers)
next
  fix k assume "k < length the_centers"
  then have k: "k < 36" by (simp add: length_the_centers)
  have lb: "length the_bins = 37" by (simp add: the_bins_eq)
  have "the_centers ! k = fdiv (Num (of_int (the_bins ! k + the_bins ! (k + 1)))) (Num 2)"
    using k lb by (simp add: the_centers_def nth_butlast nth_tl)
  also have "\<dots> = round64 (of_int (10 * int k + 5))"
  proof -
    have h: "rat_of_int (the_bins ! k + the_bins ! (k + 1)) / 2 = of_int (10 * int k + 5)"
      using k by (simp add: the_bins_nth)
    have d: "\<And>a. fdiv (Num a) (Num 2) = round64 (a / 2)" by simp
    show ?thesis unfolding d h by (rule refl)
  qed
  also have "\<dots> = Num (of_int (10 * int k + 5))"
    using k by (intro round64_of_int) simp
  finally show "the_centers ! k = map (\<lambda>k. Num (of_int (10 * int k + 5))) [0..<36] ! k"
    using k by simp
qed

lemma az_full_A:
  "az_full_of (replicate 25 (Num 10)) = replicate 25 (Num 10) @ replicate 25 (Num 190)"
  by (simp add: az_full_of_def fold_10)

lemma counts_A:
  "i < 36 \<Longrightarrow> bin_count (replicate 25 (Num 10) @ replicate 25 (Num 190)) i
     = (if i = 1 \<or> i = 19 then 25 else 0)"
  by (simp add: bin_count_append bin_count_replicate in_bin_10 in_bin_190)

lemma means_A:
  "i < 36 \<Longrightarrow>
   bin_mean (replicate 25 (Num 10) @ replicate 25 (Num 190))
     (replicate 25 (Num 50) @ replicate 25 (Num 50)) i
     = Num (if i = 1 \<or> i = 19 then 50 else 0)"
  by (simp add: bin_mean_def counts_A bin_dips_replicate bin_dips_replicate_only
      in_bin_10 in_bin_190 mean_25)

lemma max_A: "Max (set (map (\<lambda>i. if i = 1 \<or> i = 19 then 50 else (0::rat)) [0..<36])) = 50"
proof (rule Max_eqI)
  show "finite (set (map (\<lambda>i. if i = 1 \<or> i = 19 then 50 else (0::rat)) [0..<36]))" by simp
next
  fix y assume "y \<in> set (map (\<lambda>i. if i = 1 \<or> i = 19 then 50 else (0::rat)) [0..<36])"
  then show "y \<le> 50" by auto
next
  have "(if (1::nat) = 1 \<or> (1::nat) = 19 then 50 else (0::rat))
          \<in> (\<lambda>i. if i = 1 \<or> i = 19 then 50 else (0::rat)) ` set [0..<36]"
    by (rule imageI) simp
  then show "50 \<in> set (map (\<lambda>i. if i = 1 \<or> i = 19 then 50 else (0::rat)) [0..<36])"
    by simp
qed

lemma scenario_A:
  "generate_rose_diagram (replicate 25 (Num 10)) (replicate 25 (Num 50)) =
     Inr \<lparr>bin_centers = map (\<lambda>k. Num (of_int (10 * int k + 5))) [0..<36],
          counts = map (\<lambda>i. if i = 1 \<or> i = 19 then 25 else 0) [0..<36],
          dip_means = map (\<lambda>i. Num (if i = 1 \<or> i = 19 then 50 else 0)) [0..<36],
          dip_norm = map (\<lambda>i. Num (if i = 1 \<or> i = 19 then 1 else 0)) [0..<36]\<rparr>"
proof -
  have c: "map (bin_count (replicate 25 (Num 10) @ replicate 25 (Num 190))) [0..<36]
           = map (\<lambda>i. if i = 1 \<or> i = 19 then 25 else 0) [0..<36]"
    by (rule map_cong) (simp_all add: counts_A)
  have m: "map (bin_mean (replicate 25 (Num 10) @ replicate 25 (Num 190))
                 (replicate 25 (Num 50) @ replicate 25 (Num 50))) [0..<36]
           = map Num (map (\<lambda>i. if i = 1 \<or> i = 19 then 50 else 0) [0..<36])"
    unfolding map_map by (rule map_cong) (simp_all add: means_A)
  have mx: "dip_max_of (map Num (map (\<lambda>i. if i = 1 \<or> i = 19 then 50 else 0) [0..<36])) = Num 50"
    using dip_max_of_Num[of "map (\<lambda>i. if i = 1 \<or> i = 19 then 50 else (0::rat)) [0..<36]"] max_A
    by simp
  have n: "normalise (map Num (map (\<lambda>i. if i = 1 \<or> i = 19 then 50 else 0) [0..<36]))
           = map (\<lambda>i. Num (if i = 1 \<or> i = 19 then 1 else 0)) [0..<36]"
    unfolding normalise_def mx by (simp add: fgt_def)
  have l: "length (replicate 25 (Num 10)) = length (replicate 25 (Num 50))" by simp
  show ?thesis
    unfolding generate_closed_form[OF l] az_full_A the_centers_eq c m n by (simp add: comp_def)
qed

text \<open>
  C1, as the program has it. For 25 strikes of 10 and 25 dips of 50 the value 10 lies on
  the edge of the bins [0, 10) and [10, 20) and belongs to the bin that starts there: the
  bin centred at 15, and its twin at 195 (the bins with index 1 and 19), have count 25,
  mean dip 50 and normalised dip 1; every other bin, the bins centred at 5 and 185
  included, has count 0, mean dip 0 and normalised dip 0.
\<close>

theorem scenario_A_bins:
  "validate (replicate 25 (Num 10)) (replicate 25 (Num 50)) = []
   \<and> generate_rose_diagram (replicate 25 (Num 10)) (replicate 25 (Num 50)) =
     Inr \<lparr>bin_centers = map (\<lambda>k. Num (of_int (10 * int k + 5))) [0..<36],
          counts = map (\<lambda>i. if i = 1 \<or> i = 19 then 25 else 0) [0..<36],
          dip_means = map (\<lambda>i. Num (if i = 1 \<or> i = 19 then 50 else 0)) [0..<36],
          dip_norm = map (\<lambda>i. Num (if i = 1 \<or> i = 19 then 1 else 0)) [0..<36]\<rparr>"
  using scenario_A by (simp add: validate_def)

text \<open>
  Where C1 as stated fails: the bin centred at 5 (index 0) and its twin centred at 185
  (index 18) have count 0, not 25.
\<close>

theorem scenario_A_counterexample:
  "(case generate_rose_diagram (replicate 25 (Num 10)) (replicate 25 (Num 50)) of
      Inl e \<Rightarrow> False
    | Inr r \<Rightarrow> bin_centers r ! 0 = Num 5 \<and> counts r ! 0 = 0
             \<and> bin_centers r ! 18 = Num 185 \<and> counts r ! 18 = 0
             \<and> bin_centers r ! 1 = Num 15 \<and> counts r ! 1 = 25)"
  unfolding scenario_A by (simp del: upt_Suc)

section \<open>Inputs on which a rounded addition moves a sample\<close>

lemma float_top: "py_float_plain ''179.99999999999997'' = Some (Num below_180)"
  by code_simp

lemma float_edge: "py_float_plain ''9.999999999999998'' = Some (Num below_10)"
  by code_simp

lemma az_full_top:
  "az_full_of (Num below_180 # replicate 24 (Num 10)) =
     Num below_180 # replicate 24 (Num 10) @ Num 360 # replicate 24 (Num 190)"
  by (simp add: az_full_of_def fold_10 fold_top add_top del: fadd.simps)
     (simp add: fold_10)

lemma az_full_neg:
  "az_full_of (Num neg_tiny # replicate 24 (Num 10)) =
     Num 0 # replicate 24 (Num 10) @ Num 180 # replicate 24 (Num 190)"
  by (simp add: az_full_of_def fold_10 fold_neg)

lemma az_full_edge:
  "az_full_of (Num below_10 # replicate 24 (Num 10)) =
     Num below_10 # replicate 24 (Num 10) @ Num 190 # replicate 24 (Num 190)"
  by (simp add: az_full_of_def fold_10 fold_edge add_edge del: fadd.simps)
     (simp add: fold_10)

lemma counts_top:
  "i < 36 \<Longrightarrow>
   bin_count (Num below_180 # replicate 24 (Num 10) @ Num 360 # replicate 24 (Num 190)) i
     = (if i = 17 then 1 else 0) + ((if i = 1 then 24 else 0) + (if i = 19 then 24 else 0))"
  by (simp add: bin_count_append bin_count_Cons bin_count_replicate
      in_bin_10 in_bin_190 in_bin_top in_bin_360)

lemma counts_neg:
  "i < 36 \<Longrightarrow>
   bin_count (Num 0 # replicate 24 (Num 10) @ Num 180 # replicate 24 (Num 190)) i
     = (if i = 0 then 1 else 0) + ((if i = 1 then 24 else 0)
        + ((if i = 18 then 1 else 0) + (if i = 19 then 24 else 0)))"
  by (simp add: bin_count_append bin_count_Cons bin_count_replicate
      in_bin_10 in_bin_190 in_bin_0 in_bin_180)

lemma counts_edge:
  "i < 36 \<Longrightarrow>
   bin_count (Num below_10 # replicate 24 (Num 10) @ Num 190 # replicate 24 (Num 190)) i
     = (if i = 0 then 1 else 0) + ((if i = 1 then 24 else 0) + (if i = 19 then 25 else 0))"
  by (simp add: bin_count_append bin_count_Cons bin_count_replicate
      in_bin_10 in_bin_190 in_bin_edge)

lemma counts_nth:
  "i < 36 \<Longrightarrow> map (bin_count az) [0..<36] ! i = bin_count az i"
  by (simp del: upt_Suc)

text \<open>
  C2 at a failing input: 25 strikes, the first the binary64 number
  \<^verbatim>\<open>179.99999999999997\<close> (that is \<open>180 - 2^-45\<close>), the others 10. Its doubled azimuth
  \<open>180 - 2^-45 + 180\<close> rounds to 360.0, which no bin contains: the counts sum to 49, not
  to 50.
\<close>

theorem count_lost_at_360:
  "below_180 = 180 - 1 / 2 ^ 45
   \<and> py_float_plain ''179.99999999999997'' = Some (Num below_180)
   \<and> validate (Num below_180 # replicate 24 (Num 10)) (replicate 25 (Num 50)) = []
   \<and> (case generate_rose_diagram (Num below_180 # replicate 24 (Num 10))
              (replicate 25 (Num 50)) of
         Inl e \<Rightarrow> False
       | Inr r \<Rightarrow> sum_list (counts r) = 49)"
proof -
  have l: "length (Num below_180 # replicate 24 (Num 10)) = length (replicate 25 (Num 50))"
    by simp
  have c: "map (bin_count (Num below_180 # replicate 24 (Num 10)
                  @ Num 360 # replicate 24 (Num 190))) [0..<36]
        = map (\<lambda>i. (if i = 17 then 1 else 0) + ((if i = 1 then 24 else 0) + (if i = 19 then 24 else 0)))
            [0..<36]"
    by (rule map_cong) (simp_all only: counts_top set_upt atLeastLessThan_iff)
  have s: "sum_list (map (\<lambda>i. (if i = 17 then 1 else 0)
              + ((if i = 1 then 24 else 0) + (if i = 19 then 24 else 0))) [0..<36]) = (49::nat)"
    by (simp only: sum_list_addf sum_list_indicator) simp
  have g: "(case generate_rose_diagram (Num below_180 # replicate 24 (Num 10))
              (replicate 25 (Num 50)) of
         Inl e \<Rightarrow> False
       | Inr r \<Rightarrow> sum_list (counts r) = 49)"
    unfolding generate_closed_form[OF l] az_full_top c using s by simp
  have v: "validate (Num below_180 # replicate 24 (Num 10)) (replicate 25 (Num 50)) = []"
    by (simp add: validate_def)
  show ?thesis using below_180_def float_top v g by (intro conjI)
qed

text \<open>
  C9 at a failing input: 25 strikes, the first the binary64 number
  \<^verbatim>\<open>9.999999999999998\<close> (that is \<open>10 - 2^-49\<close>), the others 10. The sample is in bin 0,
  but its doubled azimuth \<open>10 - 2^-49 + 180\<close> rounds to 190.0, which is in bin 19, not in
  bin 18: bin 0 has count 1 and bin 18 has count 0.
\<close>

theorem symmetry_lost_at_edge:
  "below_10 = 10 - 1 / 2 ^ 49
   \<and> py_float_plain ''9.999999999999998'' = Some (Num below_10)
   \<and> validate (Num below_10 # replicate 24 (Num 10)) (replicate 25 (Num 50)) = []
   \<and> (case generate_rose_diagram (Num below_10 # replicate 24 (Num 10))
              (replicate 25 (Num 50)) of
         Inl e \<Rightarrow> False
       | Inr r \<Rightarrow> counts r ! 0 = 1 \<and> counts r ! 18 = 0 \<and> counts r ! 1 = 24 \<and> counts r ! 19 = 25)"
proof -
  have l: "length (Num below_10 # replicate 24 (Num 10)) = length (replicate 25 (Num 50))"
    by simp
  have g: "(case generate_rose_diagram (Num below_10 # replicate 24 (Num 10))
              (replicate 25 (Num 50)) of
         Inl e \<Rightarrow> False
       | Inr r \<Rightarrow> counts r ! 0 = 1 \<and> counts r ! 18 = 0 \<and> counts r ! 1 = 24 \<and> counts r ! 19 = 25)"
    unfolding generate_closed_form[OF l] az_full_edge
    by (simp add: counts_nth counts_edge del: upt_Suc)
  have v: "validate (Num below_10 # replicate 24 (Num 10)) (replicate 25 (Num 50)) = []"
    by (simp add: validate_def)
  show ?thesis using below_10_def float_edge v g by (intro conjI)
qed

text \<open>
  C7 at a failing input: the strike \<open>s = -2^-45\<close> and the strike \<open>s + 180 = 180 - 2^-45\<close>,
  both binary64 numbers, each with 24 strikes of 10 and the same dips. \<open>s % 360\<close> rounds
  to 360.0 and folds to azimuth 0, counted in bins 0 and 18; \<open>s + 180\<close> folds to itself,
  counted in bin 17 and lost at 360.0. The two aggregations differ.
\<close>

theorem fold_not_periodic:
  "neg_tiny = - (1 / 2 ^ 45) \<and> below_180 = neg_tiny + 180
   \<and> (case (generate_rose_diagram (Num neg_tiny # replicate 24 (Num 10))
               (replicate 25 (Num 50)),
             generate_rose_diagram (Num below_180 # replicate 24 (Num 10))
               (replicate 25 (Num 50))) of
         (Inr r1, Inr r2) \<Rightarrow>
           counts r1 ! 0 = 1 \<and> counts r2 ! 0 = 0 \<and> counts r1 ! 17 = 0 \<and> counts r2 ! 17 = 1
           \<and> counts r1 ! 18 = 1 \<and> counts r2 ! 18 = 0
       | _ \<Rightarrow> False)"
proof -
  have l1: "length (Num neg_tiny # replicate 24 (Num 10)) = length (replicate 25 (Num 50))"
    by simp
  have l2: "length (Num below_180 # replicate 24 (Num 10)) = length (replicate 25 (Num 50))"
    by simp
  have g: "(case (generate_rose_diagram (Num neg_tiny # replicate 24 (Num 10))
               (replicate 25 (Num 50)),
             generate_rose_diagram (Num below_180 # replicate 24 (Num 10))
               (replicate 25 (Num 50))) of
         (Inr r1, Inr r2) \<Rightarrow>
           counts r1 ! 0 = 1 \<and> counts r2 ! 0 = 0 \<and> counts r1 ! 17 = 0 \<and> counts r2 ! 17 = 1
           \<and> counts r1 ! 18 = 1 \<and> counts r2 ! 18 = 0
       | _ \<Rightarrow> False)"
    unfolding generate_closed_form[OF l1] generate_closed_form[OF l2] az_full_top az_full_neg
    by (simp add: counts_nth counts_top counts_neg del: upt_Suc)
  have e: "below_180 = neg_tiny + 180" by (simp add: below_180_def neg_tiny_def)
  show ?thesis using neg_tiny_def e g by (intro conjI)
qed

section \<open>The bounds of the normalised dips\<close>










section \<open>What holds when no addition rounds a sample away\<close>

text \<open>
  The counts do sum to twice the number of samples whenever every doubled azimuth is a
  number in [0, 360); and the aggregation depends on the strikes only through their
  folded azimuths, so a strike of 370 gives what a strike of 10 gives.
\<close>

lemma sum_list_indicator_filter:
  "sum_list (map (\<lambda>i. if P i then 1 else 0) xs) = length (filter P xs)"
  by (induction xs) simp_all

lemma counts_sum_in_range:
  assumes "\<forall>a\<in>set az. \<exists>q. a = Num q \<and> 0 \<le> q \<and> q < 360"
  shows "sum_list (map (bin_count az) [0..<36]) = length az"
  using assms
proof (induction az)
  case Nil
  show ?case by (simp add: bin_count_Nil del: upt_Suc)
next
  case (Cons a az)
  obtain q where q: "a = Num q" "0 \<le> q" "q < 360" using Cons.prems by auto
  have one: "sum_list (map (\<lambda>i. if in_bin i a then 1 else 0) [0..<36]) = (1::nat)"
    unfolding sum_list_indicator_filter q(1) bins_of_value[OF q(2,3)] by simp
  have "map (bin_count (a # az)) [0..<36]
        = map (\<lambda>i. (if in_bin i a then 1 else 0) + bin_count az i) [0..<36]"
    by (rule map_cong) (simp_all only: bin_count_Cons)
  then have "sum_list (map (bin_count (a # az)) [0..<36])
        = sum_list (map (\<lambda>i. (if in_bin i a then 1 else 0) + bin_count az i) [0..<36])"
    by (rule arg_cong)
  also have "\<dots> = sum_list (map (\<lambda>i. if in_bin i a then 1 else 0) [0..<36])
                   + sum_list (map (bin_count az) [0..<36])"
    by (rule sum_list_addf)
  also have "\<dots> = 1 + length az" using one Cons by simp
  finally show ?case by simp
qed

lemma counts_conserved_in_range:
  assumes "length strikes = length dips"
    and "\<forall>a\<in>set (az_full_of strikes). \<exists>q. a = Num q \<and> 0 \<le> q \<and> q < 360"
  shows "\<exists>r. generate_rose_diagram strikes dips = Inr r
           \<and> sum_list (counts r) = 2 * length strikes"
proof -
  have "length (az_full_of strikes) = 2 * length strikes" by (simp add: az_full_of_def)
  then show ?thesis
    unfolding generate_closed_form[OF assms(1)] using counts_sum_in_range[OF assms(2)] by simp
qed

lemma generate_depends_on_fold:
  assumes "map fold_strike s1 = map fold_strike s2" and "length s1 = length dips"
  shows "generate_rose_diagram s1 dips = generate_rose_diagram s2 dips"
proof -
  have "length (map fold_strike s1) = length (map fold_strike s2)"
    using assms(1) by (rule arg_cong)
  then have l2: "length s2 = length dips" using assms(2) by simp
  have alt: "\<And>s. az_full_of s
      = map fold_strike s @ map (\<lambda>a. fadd a (Num 180)) (map fold_strike s)"
    by (simp add: az_full_of_def comp_def)
  have "az_full_of s1 = az_full_of s2"
    using assms(1) by (simp only: alt)
  then show ?thesis
    unfolding generate_closed_form[OF assms(2)] generate_closed_form[OF l2] by simp
qed

lemma fold_370: "fold_strike (Num 370) = Num 10"
  by code_simp

lemma strike_370_as_10:
  assumes "length ss = length ds"
  shows "generate_rose_diagram (Num 370 # ss) (d # ds) = generate_rose_diagram (Num 10 # ss) (d # ds)"
  by (rule generate_depends_on_fold) (simp_all add: fold_370 fold_10 assms)

end
